theory Spec2Isabelle
  imports Main "HOL-Library.Word"
begin

unbundle bit_operations_syntax

section \<open>Data model\<close>

text \<open>
  \<^verbatim>\<open>x11kvs.c\<close> works on raw byte buffers. A buffer is the list of the bytes of the
  object a pointer points into; \<^verbatim>\<open>uint32_t\<close> and \<^verbatim>\<open>unsigned int\<close> are 32-bit words, whose
  addition and subtraction wrap around.
\<close>

type_synonym byte = "8 word"
type_synonym bytes = "byte list"
type_synonym uint32 = "32 word"

text \<open>
  The C functions return \<^verbatim>\<open>void\<close> and report nothing. The only way an evaluation does not
  deliver a digest is a read past the end of the caller's buffer, which is undefined
  behaviour in C; the model makes it a value of its own.
\<close>

datatype fault = OutOfBounds

definition mem_read :: "bytes \<Rightarrow> nat \<Rightarrow> fault + bytes" where
  "mem_read buf n = (if n \<le> length buf then Inr (take n buf) else Inl OutOfBounds)"

text \<open>
  The eleven 512-bit hash functions of \<^verbatim>\<open>sha3/sph_*.h\<close> and \<^verbatim>\<open>SHA256\<close> of \<^verbatim>\<open>sha256.h\<close> are
  external to \<^verbatim>\<open>x11kvs.c\<close>. Each \<^verbatim>\<open>init\<close>/\<^verbatim>\<open>update\<close>/\<^verbatim>\<open>close\<close> triple is one function from the
  bytes fed to it to the bytes it writes; the functions themselves are parameters.
\<close>

record primitives =
  sph_blake512 :: "bytes \<Rightarrow> bytes"
  sph_bmw512 :: "bytes \<Rightarrow> bytes"
  sph_groestl512 :: "bytes \<Rightarrow> bytes"
  sph_skein512 :: "bytes \<Rightarrow> bytes"
  sph_jh512 :: "bytes \<Rightarrow> bytes"
  sph_keccak512 :: "bytes \<Rightarrow> bytes"
  sph_luffa512 :: "bytes \<Rightarrow> bytes"
  sph_cubehash512 :: "bytes \<Rightarrow> bytes"
  sph_shavite512 :: "bytes \<Rightarrow> bytes"
  sph_simd512 :: "bytes \<Rightarrow> bytes"
  sph_echo512 :: "bytes \<Rightarrow> bytes"
  SHA256 :: "bytes \<Rightarrow> bytes"

text \<open>
  What the interfaces promise: a 512-bit function writes 64 bytes (into \<^verbatim>\<open>hashA\<close>, an array
  of 16 \<^verbatim>\<open>uint32_t\<close>), \<^verbatim>\<open>SHA256_Final\<close> writes 32 bytes.
\<close>

definition wf_primitives :: "primitives \<Rightarrow> bool" where
  "wf_primitives P \<longleftrightarrow>
     (\<forall>d. length (sph_blake512 P d) = 64) \<and>
     (\<forall>d. length (sph_bmw512 P d) = 64) \<and>
     (\<forall>d. length (sph_groestl512 P d) = 64) \<and>
     (\<forall>d. length (sph_skein512 P d) = 64) \<and>
     (\<forall>d. length (sph_jh512 P d) = 64) \<and>
     (\<forall>d. length (sph_keccak512 P d) = 64) \<and>
     (\<forall>d. length (sph_luffa512 P d) = 64) \<and>
     (\<forall>d. length (sph_cubehash512 P d) = 64) \<and>
     (\<forall>d. length (sph_shavite512 P d) = 64) \<and>
     (\<forall>d. length (sph_simd512 P d) = 64) \<and>
     (\<forall>d. length (sph_echo512 P d) = 64) \<and>
     (\<forall>d. length (SHA256 P d) = 32)"

text \<open>
  Modelled from the spec: \<^verbatim>\<open>le32dec\<close> and \<^verbatim>\<open>le32enc\<close> are declared outside \<^verbatim>\<open>x11kvs.c\<close>; the
  spec calls them little-endian fixed-width integer decode and encode helpers. \<^verbatim>\<open>le32dec p\<close>
  reads the four bytes at \<^verbatim>\<open>p\<close>, least significant first; \<^verbatim>\<open>le32enc\<close> produces the four
  bytes it stores.
\<close>

definition le32dec :: "bytes \<Rightarrow> uint32" where
  "le32dec p = ucast (p ! 0) + push_bit 8 (ucast (p ! 1)) + push_bit 16 (ucast (p ! 2))
     + push_bit 24 (ucast (p ! 3))"

definition le32enc :: "uint32 \<Rightarrow> bytes" where
  "le32enc x = [ucast x, ucast (drop_bit 8 x), ucast (drop_bit 16 x), ucast (drop_bit 24 x)]"

section \<open>sha256_double_hash\<close>

text \<open>\<^verbatim>\<open>temp\<close> is a 32-byte array; the second round reads 32 bytes of it.\<close>

definition sha256_double_hash :: "primitives \<Rightarrow> bytes \<Rightarrow> nat \<Rightarrow> bytes" where
  "sha256_double_hash P input len =
     (let temp = SHA256 P (take len input)
      in SHA256 P (take 32 temp))"

section \<open>x11kv\<close>

definition HASHX11KV_MIN_NUMBER_ITERATIONS :: nat where
  "HASHX11KV_MIN_NUMBER_ITERATIONS = 2"

definition HASHX11KV_MAX_NUMBER_ITERATIONS :: nat where
  "HASHX11KV_MAX_NUMBER_ITERATIONS = 6"

definition HASHX11KV_NUMBER_ALGOS :: nat where
  "HASHX11KV_NUMBER_ALGOS = 11"

text \<open>The body of the \<^verbatim>\<open>switch\<close>: every case feeds 64 bytes of \<^verbatim>\<open>hashA\<close> to one function and
  overwrites \<^verbatim>\<open>hashA\<close> with the result. There is no default case.\<close>

definition x11kv_switch :: "primitives \<Rightarrow> nat \<Rightarrow> bytes \<Rightarrow> bytes" where
  "x11kv_switch P k hashA =
     (if k = 0 then sph_blake512 P (take 64 hashA)
      else if k = 1 then sph_bmw512 P (take 64 hashA)
      else if k = 2 then sph_groestl512 P (take 64 hashA)
      else if k = 3 then sph_skein512 P (take 64 hashA)
      else if k = 4 then sph_jh512 P (take 64 hashA)
      else if k = 5 then sph_keccak512 P (take 64 hashA)
      else if k = 6 then sph_luffa512 P (take 64 hashA)
      else if k = 7 then sph_cubehash512 P (take 64 hashA)
      else if k = 8 then sph_shavite512 P (take 64 hashA)
      else if k = 9 then sph_simd512 P (take 64 hashA)
      else if k = 10 then sph_echo512 P (take 64 hashA)
      else hashA)"

text \<open>The \<^verbatim>\<open>for\<close> loop, from the current \<^verbatim>\<open>i\<close>.\<close>

function x11kv_loop :: "primitives \<Rightarrow> nat \<Rightarrow> nat \<Rightarrow> bytes \<Rightarrow> bytes" where
  "x11kv_loop P i n hashA =
     (if i < n
      then x11kv_loop P (i + 1) n
             (x11kv_switch P (unat (hashA ! (i mod 64)) mod HASHX11KV_NUMBER_ALGOS) hashA)
      else hashA)"
  by pat_completeness auto
termination
  by (relation "measure (\<lambda>(P, i, n, hashA). n - i)") auto

definition x11kv_iterations :: "bytes \<Rightarrow> nat" where
  "x11kv_iterations hashA =
     HASHX11KV_MIN_NUMBER_ITERATIONS
       + unat (hashA ! 63)
           mod (HASHX11KV_MAX_NUMBER_ITERATIONS - HASHX11KV_MIN_NUMBER_ITERATIONS + 1)"

definition x11kv :: "primitives \<Rightarrow> bytes \<Rightarrow> fault + bytes" where
  "x11kv P input =
     (case mem_read input 80 of
        Inl e \<Rightarrow> Inl e
      | Inr header \<Rightarrow>
          let hashA = sph_blake512 P header;
              n = x11kv_iterations hashA
          in Inr (take 32 (x11kv_loop P 1 n hashA)))"

section \<open>x11kvshash and x11kvs_hash\<close>

definition HASHX11KVS_MAX_LEVEL :: uint32 where
  "HASHX11KVS_MAX_LEVEL = 7"

definition HASHX11KVS_MIN_LEVEL :: uint32 where
  "HASHX11KVS_MIN_LEVEL = 1"

definition HASHX11KVS_MAX_DRIFT :: uint32 where
  "HASHX11KVS_MAX_DRIFT = 0xFFFF"

text \<open>
  The header of a child: \<^verbatim>\<open>off\<close> is 24 for \<^verbatim>\<open>nextheader1\<close> and 28 for \<^verbatim>\<open>nextheader2\<close>.
  \<^verbatim>\<open>x11kv\<close> has read 80 bytes of \<^verbatim>\<open>input\<close> before, so the reads are in bounds.
\<close>

definition nextnonce :: "bytes \<Rightarrow> bytes \<Rightarrow> nat \<Rightarrow> uint32" where
  "nextnonce input hash off =
     (let nonce = le32dec (drop 76 input)
      in nonce + (le32dec (drop off hash) mod HASHX11KVS_MAX_DRIFT))"

definition nextheader :: "bytes \<Rightarrow> bytes \<Rightarrow> nat \<Rightarrow> bytes" where
  "nextheader input hash off = take 76 input @ le32enc (nextnonce input hash off)"

function x11kvshash :: "primitives \<Rightarrow> bytes \<Rightarrow> uint32 \<Rightarrow> fault + bytes" where
  "x11kvshash P input level =
     (case x11kv P input of
        Inl e \<Rightarrow> Inl e
      | Inr hash \<Rightarrow>
          if level = HASHX11KVS_MIN_LEVEL then Inr (take 32 hash)
          else
            (case x11kvshash P (nextheader input hash 24) (level - 1) of
               Inl e \<Rightarrow> Inl e
             | Inr hash1 \<Rightarrow>
                 (case x11kvshash P (nextheader input hash 28) (level - 1) of
                    Inl e \<Rightarrow> Inl e
                  | Inr hash2 \<Rightarrow>
                      let hashConcated = take 32 hash @ take 32 hash1 @ take 32 hash2
                      in Inr (sha256_double_hash P hashConcated 96))))"
  by pat_completeness auto
termination
proof (relation "measure (\<lambda>(P, input, level). unat (level - 1))")
  show "wf (measure (\<lambda>(P, input, level). unat (level - 1)))"
    by simp
next
  fix P :: primitives and input :: bytes and level :: uint32 and hash :: bytes
  define w where "w = level - 1"
  assume "level \<noteq> HASHX11KVS_MIN_LEVEL"
  then have "w \<noteq> 0"
    by (simp add: HASHX11KVS_MIN_LEVEL_def w_def)
  then have "0 < unat w" and "unat (w - 1) = unat w - 1"
    by (simp_all add: unat_minus_one unat_gt_0)
  then have "unat (w - 1) < unat w"
    by arith
  then have "unat (level - 1 - 1) < unat (level - 1)"
    unfolding w_def .
  then show "((P, nextheader input hash 24, level - 1), P, input, level)
      \<in> measure (\<lambda>(P, input, level). unat (level - 1))"
    by simp
  then show "((P, nextheader input hash 28, level - 1), P, input, level)
      \<in> measure (\<lambda>(P, input, level). unat (level - 1))"
    by simp
qed

text \<open>The entry point passes the fixed level and never looks at \<^verbatim>\<open>len\<close>.\<close>

definition x11kvs_hash :: "primitives \<Rightarrow> bytes \<Rightarrow> uint32 \<Rightarrow> fault + bytes" where
  "x11kvs_hash P input len = x11kvshash P input HASHX11KVS_MAX_LEVEL"

section \<open>Counting the invocations of x11kv\<close>

text \<open>
  \<^verbatim>\<open>x11kvshash\<close> once more, returning beside its result the number of calls of \<^verbatim>\<open>x11kv\<close>
  that the evaluation made: one of its own, and those of the two recursive calls.
\<close>

function x11kvshash_count :: "primitives \<Rightarrow> bytes \<Rightarrow> uint32 \<Rightarrow> (fault + bytes) \<times> nat" where
  "x11kvshash_count P input level =
     (case x11kv P input of
        Inl e \<Rightarrow> (Inl e, 1)
      | Inr hash \<Rightarrow>
          if level = HASHX11KVS_MIN_LEVEL then (Inr (take 32 hash), 1)
          else
            (case x11kvshash_count P (nextheader input hash 24) (level - 1) of
               (Inl e, c1) \<Rightarrow> (Inl e, 1 + c1)
             | (Inr hash1, c1) \<Rightarrow>
                 (case x11kvshash_count P (nextheader input hash 28) (level - 1) of
                    (Inl e, c2) \<Rightarrow> (Inl e, 1 + c1 + c2)
                  | (Inr hash2, c2) \<Rightarrow>
                      let hashConcated = take 32 hash @ take 32 hash1 @ take 32 hash2
                      in (Inr (sha256_double_hash P hashConcated 96), 1 + c1 + c2))))"
  by pat_completeness auto
termination
proof (relation "measure (\<lambda>(P, input, level). unat (level - 1))")
  show "wf (measure (\<lambda>(P, input, level). unat (level - 1)))"
    by simp
next
  fix P :: primitives and input :: bytes and level :: uint32 and hash :: bytes
  define w where "w = level - 1"
  assume "level \<noteq> HASHX11KVS_MIN_LEVEL"
  then have "w \<noteq> 0"
    by (simp add: HASHX11KVS_MIN_LEVEL_def w_def)
  then have "0 < unat w" and "unat (w - 1) = unat w - 1"
    by (simp_all add: unat_minus_one unat_gt_0)
  then have "unat (w - 1) < unat w"
    by arith
  then have "unat (level - 1 - 1) < unat (level - 1)"
    unfolding w_def .
  then show "((P, nextheader input hash 24, level - 1), P, input, level)
      \<in> measure (\<lambda>(P, input, level). unat (level - 1))"
    by simp
  then show "((P, nextheader input hash 28, level - 1), P, input, level)
      \<in> measure (\<lambda>(P, input, level). unat (level - 1))"
    by simp
qed

definition x11kvs_hash_count :: "primitives \<Rightarrow> bytes \<Rightarrow> uint32 \<Rightarrow> (fault + bytes) \<times> nat" where
  "x11kvs_hash_count P input len = x11kvshash_count P input HASHX11KVS_MAX_LEVEL"

section \<open>The leaf hash as the specification words it\<close>

text \<open>The function the \<^verbatim>\<open>switch\<close> of \<^verbatim>\<open>x11kv\<close> selects for index \<open>k\<close>, as a function of its
  whole input.\<close>

definition sph512 :: "primitives \<Rightarrow> nat \<Rightarrow> bytes \<Rightarrow> bytes" where
  "sph512 P k =
     (if k = 0 then sph_blake512 P
      else if k = 1 then sph_bmw512 P
      else if k = 2 then sph_groestl512 P
      else if k = 3 then sph_skein512 P
      else if k = 4 then sph_jh512 P
      else if k = 5 then sph_keccak512 P
      else if k = 6 then sph_luffa512 P
      else if k = 7 then sph_cubehash512 P
      else if k = 8 then sph_shavite512 P
      else if k = 9 then sph_simd512 P
      else if k = 10 then sph_echo512 P
      else (\<lambda>d. d))"

text \<open>
  The specification's leaf hash over primitives \<open>H 0\<close>, ..., \<open>H 10\<close>: \<open>digest0 = H 0 header\<close>,
  \<open>n = 2 + (byte 63 of digest0) mod (6 - 2 + 1)\<close>, then for \<open>i\<close> from 1 to \<open>n - 1\<close> the working
  digest is replaced by \<open>H k\<close> of it, \<open>k\<close> being its byte at offset \<open>i mod 64\<close>, modulo 11; the
  output is the first 32 bytes.
\<close>

definition leafHash_spec_n :: "bytes \<Rightarrow> nat" where
  "leafHash_spec_n digest0 = 2 + unat (digest0 ! 63) mod (6 - 2 + 1)"

definition leafHash_spec :: "(nat \<Rightarrow> bytes \<Rightarrow> bytes) \<Rightarrow> bytes \<Rightarrow> bytes" where
  "leafHash_spec H header =
     (let digest0 = H 0 header;
          n = leafHash_spec_n digest0
      in take 32 (fold (\<lambda>i digest. H (unat (digest ! (i mod 64)) mod 11) digest) [1..<n] digest0))"

section \<open>A small instance of the primitives\<close>

text \<open>
  Stand-ins with the right output sizes, on which the model runs: the input is cut into
  blocks of the output size, and byte \<open>i\<close> of the output is a tag plus the sum of the
  bytes at offset \<open>i\<close> of the blocks.
\<close>

definition demo_fold :: "nat \<Rightarrow> byte \<Rightarrow> bytes \<Rightarrow> bytes" where
  "demo_fold m tag d =
     map (\<lambda>i. tag + sum_list (map (\<lambda>k. d ! (i + m * k))
                         (filter (\<lambda>k. i + m * k < length d) [0..<Suc (length d div m)])))
       [0..<m]"

definition demo_primitives :: primitives where
  "demo_primitives =
     \<lparr>sph_blake512 = demo_fold 64 1, sph_bmw512 = demo_fold 64 2,
      sph_groestl512 = demo_fold 64 3, sph_skein512 = demo_fold 64 4,
      sph_jh512 = demo_fold 64 5, sph_keccak512 = demo_fold 64 6,
      sph_luffa512 = demo_fold 64 7, sph_cubehash512 = demo_fold 64 8,
      sph_shavite512 = demo_fold 64 9, sph_simd512 = demo_fold 64 10,
      sph_echo512 = demo_fold 64 11, SHA256 = demo_fold 32 12\<rparr>"

definition demo_header :: bytes where
  "demo_header = map of_nat [0..<80]"

section \<open>Results and digests\<close>

text \<open>An evaluation delivers a digest when it ends without a fault and with 32 bytes.\<close>

definition is_digest :: "fault + bytes \<Rightarrow> bool" where
  "is_digest r = (case r of Inl e \<Rightarrow> False | Inr d \<Rightarrow> length d = 32)"

section \<open>Auxiliary facts\<close>

text \<open>The recursive equations are unfolded by hand, one step at a time.\<close>

declare x11kvshash.simps [simp del] x11kvshash_count.simps [simp del] x11kv_loop.simps [simp del]

subsection \<open>Little-endian encoding\<close>

lemma le32_bytes:
  "ucast (ucast x :: byte) + push_bit 8 (ucast (ucast (drop_bit 8 x) :: byte))
     + push_bit 16 (ucast (ucast (drop_bit 16 x) :: byte))
     + push_bit 24 (ucast (ucast (drop_bit 24 x) :: byte)) = (x :: uint32)"
proof -
  let ?a = "ucast (ucast x :: byte) :: uint32"
  let ?b = "push_bit 8 (ucast (ucast (drop_bit 8 x) :: byte)) :: uint32"
  let ?c = "push_bit 16 (ucast (ucast (drop_bit 16 x) :: byte)) :: uint32"
  let ?d = "push_bit 24 (ucast (ucast (drop_bit 24 x) :: byte)) :: uint32"
  have ab: "?a + ?b = ?a OR ?b"
    by (rule disjunctive_add) (auto simp add: bit_simps)
  have abc: "(?a OR ?b) + ?c = (?a OR ?b) OR ?c"
    by (rule disjunctive_add) (auto simp add: bit_simps)
  have abcd: "((?a OR ?b) OR ?c) + ?d = ((?a OR ?b) OR ?c) OR ?d"
    by (rule disjunctive_add) (auto simp add: bit_simps)
  have "((?a OR ?b) OR ?c) OR ?d = x"
  proof (rule bit_word_eqI)
    fix n
    assume "n < LENGTH(32)"
    then have n: "n < 32"
      by simp
    consider "n < 8" | "8 \<le> n" "n < 16" | "16 \<le> n" "n < 24" | "24 \<le> n"
      by linarith
    then show "bit (((?a OR ?b) OR ?c) OR ?d) n \<longleftrightarrow> bit x n"
      using n by cases (auto simp add: bit_simps)
  qed
  then show ?thesis
    using ab abc abcd by simp
qed

lemma le32dec_le32enc: "le32dec (le32enc x @ r) = x"
  unfolding le32dec_def le32enc_def using le32_bytes[of x] by simp

lemma length_le32enc: "length (le32enc x) = 4"
  by (simp add: le32enc_def)

lemma le32dec_cong:
  "p ! 0 = q ! 0 \<Longrightarrow> p ! 1 = q ! 1 \<Longrightarrow> p ! 2 = q ! 2 \<Longrightarrow> p ! 3 = q ! 3 \<Longrightarrow> le32dec p = le32dec q"
  by (simp add: le32dec_def)

subsection \<open>Child headers\<close>

lemma length_nextheader: "76 \<le> length input \<Longrightarrow> length (nextheader input hash off) = 80"
  by (simp add: nextheader_def length_le32enc)

lemma take_nextheader: "76 \<le> length input \<Longrightarrow> take 76 (nextheader input hash off) = take 76 input"
  by (simp add: nextheader_def)

lemma drop_nextheader:
  "76 \<le> length input \<Longrightarrow> drop 76 (nextheader input hash off) = le32enc (nextnonce input hash off)"
  by (simp add: nextheader_def)

lemma le32dec_nextheader:
  "76 \<le> length input \<Longrightarrow> le32dec (drop 76 (nextheader input hash off)) = nextnonce input hash off"
  using le32dec_le32enc[of "nextnonce input hash off" "[]"] by (simp add: drop_nextheader)

lemma nextheader_take80:
  assumes "80 \<le> length input"
  shows "nextheader (take 80 input) hash off = nextheader input hash off"
proof -
  have "le32dec (drop 76 (take 80 input)) = le32dec (drop 76 input)"
    using assms by (intro le32dec_cong) simp_all
  then show ?thesis
    by (simp add: nextheader_def nextnonce_def)
qed

subsection \<open>Sizes\<close>

lemma length_x11kv_switch:
  "wf_primitives P \<Longrightarrow> length hashA = 64 \<Longrightarrow> length (x11kv_switch P k hashA) = 64"
  by (simp add: wf_primitives_def x11kv_switch_def)

lemma length_x11kv_loop:
  "wf_primitives P \<Longrightarrow> length hashA = 64 \<Longrightarrow> length (x11kv_loop P i n hashA) = 64"
proof (induction P i n hashA rule: x11kv_loop.induct)
  case (1 P i n hashA)
  then show ?case
    by (subst x11kv_loop.simps) (simp add: length_x11kv_switch)
qed

lemma x11kv_Inr:
  "80 \<le> length input \<Longrightarrow>
     x11kv P input = Inr (take 32 (x11kv_loop P 1 (x11kv_iterations (sph_blake512 P (take 80 input)))
       (sph_blake512 P (take 80 input))))"
  by (simp add: x11kv_def mem_read_def Let_def)

lemma x11kv_fault: "length input < 80 \<Longrightarrow> x11kv P input = Inl OutOfBounds"
  by (simp add: x11kv_def mem_read_def)

lemma x11kv_take80: "x11kv P (take 80 input) = x11kv P input"
  by (cases "80 \<le> length input") (simp_all add: x11kv_def mem_read_def)

lemma length_x11kv:
  assumes "wf_primitives P" and "x11kv P input = Inr hash"
  shows "length hash = 32"
proof -
  have len: "80 \<le> length input"
    using assms(2) x11kv_fault[of input P] by (cases "80 \<le> length input") simp_all
  have "length (sph_blake512 P (take 80 input)) = 64"
    using assms(1) by (simp add: wf_primitives_def)
  with assms(1) have "length (x11kv_loop P 1 (x11kv_iterations (sph_blake512 P (take 80 input)))
      (sph_blake512 P (take 80 input))) = 64"
    by (rule length_x11kv_loop)
  then show ?thesis
    using assms(2) x11kv_Inr[OF len, of P] by auto
qed

lemma length_sha256_double_hash:
  "wf_primitives P \<Longrightarrow> length (sha256_double_hash P input len) = 32"
  by (simp add: sha256_double_hash_def wf_primitives_def Let_def)

lemma sha256_double_hash_96:
  "wf_primitives P \<Longrightarrow> length input = 96 \<Longrightarrow>
     sha256_double_hash P input 96 = SHA256 P (SHA256 P input)"
  by (simp add: sha256_double_hash_def wf_primitives_def Let_def)

subsection \<open>The recursion, one step\<close>

lemma x11kvshash_fault:
  "x11kv P input = Inl e \<Longrightarrow> x11kvshash P input level = Inl e"
  by (subst x11kvshash.simps) simp

lemma x11kvshash_leaf:
  "x11kvshash P input 1 = x11kv P input"
proof (cases "x11kv P input")
  case (Inl e)
  then show ?thesis by (simp add: x11kvshash_fault)
next
  case (Inr hash)
  then obtain d where "hash = take 32 d"
    by (auto simp add: x11kv_def Let_def split: sum.splits)
  with Inr show ?thesis
    by (subst x11kvshash.simps) (simp add: HASHX11KVS_MIN_LEVEL_def)
qed

lemma x11kvshash_node:
  assumes "x11kv P input = Inr hash" and "level \<noteq> 1"
  shows "x11kvshash P input level =
     (case x11kvshash P (nextheader input hash 24) (level - 1) of
        Inl e \<Rightarrow> Inl e
      | Inr hash1 \<Rightarrow>
          (case x11kvshash P (nextheader input hash 28) (level - 1) of
             Inl e \<Rightarrow> Inl e
           | Inr hash2 \<Rightarrow>
               Inr (sha256_double_hash P (take 32 hash @ take 32 hash1 @ take 32 hash2) 96)))"
  using assms
  by (subst x11kvshash.simps) (simp add: HASHX11KVS_MIN_LEVEL_def Let_def split: sum.splits)

lemma x11kvshash_Inr:
  "80 \<le> length input \<Longrightarrow> \<exists>d. x11kvshash P input level = Inr d"
proof (induction P input level rule: x11kvshash.induct)
  case (1 P input level)
  from x11kv_Inr[OF "1.prems"] obtain hash where hash: "x11kv P input = Inr hash"
    by blast
  show ?case
  proof (cases "level = HASHX11KVS_MIN_LEVEL")
    case True
    with hash show ?thesis
      by (simp add: HASHX11KVS_MIN_LEVEL_def x11kvshash_leaf)
  next
    case False
    have len: "80 \<le> length (nextheader input hash off)" for off
      using "1.prems" by (simp add: length_nextheader)
    from "1.IH"(1)[OF hash False len] obtain hash1
      where hash1: "x11kvshash P (nextheader input hash 24) (level - 1) = Inr hash1"
      by blast
    from "1.IH"(2)[OF hash False hash1 len] obtain hash2
      where hash2: "x11kvshash P (nextheader input hash 28) (level - 1) = Inr hash2"
      by blast
    from False have "level \<noteq> 1"
      by (simp add: HASHX11KVS_MIN_LEVEL_def)
    from x11kvshash_node[OF hash this] hash1 hash2 show ?thesis
      by simp
  qed
qed

lemma length_x11kvshash:
  assumes "wf_primitives P" and "x11kvshash P input level = Inr d"
  shows "length d = 32"
proof (cases "x11kv P input")
  case (Inl e)
  with assms(2) show ?thesis
    by (simp add: x11kvshash_fault)
next
  case (Inr hash)
  show ?thesis
  proof (cases "level = 1")
    case True
    with assms Inr show ?thesis
      by (simp add: x11kvshash_leaf length_x11kv)
  next
    case False
    from x11kvshash_node[OF Inr False] assms show ?thesis
      by (auto simp add: length_sha256_double_hash split: sum.splits)
  qed
qed

lemma is_digest_x11kvshash:
  assumes "wf_primitives P" and "80 \<le> length input"
  shows "is_digest (x11kvshash P input level)"
proof -
  from x11kvshash_Inr[OF assms(2)] obtain d where d: "x11kvshash P input level = Inr d"
    by blast
  with assms(1) have "length d = 32"
    by (rule length_x11kvshash)
  with d show ?thesis
    by (simp add: is_digest_def)
qed

lemma x11kvshash_take80:
  "x11kvshash P (take 80 input) level = x11kvshash P input level"
proof (cases "80 \<le> length input")
  case False
  then show ?thesis by simp
next
  case True
  then have nh: "nextheader (take 80 input) hash off = nextheader input hash off" for hash off
    by (rule nextheader_take80)
  show ?thesis
    by (subst (1 2) x11kvshash.simps) (simp add: x11kv_take80 nh split: sum.splits)
qed

subsection \<open>The drift\<close>

lemma nextnonce_drift:
  "nextnonce input hash off - le32dec (drop 76 input) = le32dec (drop off hash) mod 0xFFFF"
  by (simp add: nextnonce_def HASHX11KVS_MAX_DRIFT_def)

lemma drift_less: "(d :: uint32) mod 0xFFFF < 0xFFFF"
  by (rule word_mod_less_divisor) simp

subsection \<open>The loop as a fold\<close>

lemma x11kv_switch_sph512:
  "length hashA = 64 \<Longrightarrow> x11kv_switch P k hashA = sph512 P k hashA"
  by (simp add: x11kv_switch_def sph512_def)

lemma x11kv_loop_fold:
  "wf_primitives P \<Longrightarrow> length hashA = 64 \<Longrightarrow>
     x11kv_loop P i n hashA
       = fold (\<lambda>i digest. sph512 P (unat (digest ! (i mod 64)) mod 11) digest) [i..<n] hashA"
proof (induction P i n hashA rule: x11kv_loop.induct)
  case (1 P i n hashA)
  show ?case
  proof (cases "i < n")
    case True
    let ?next = "x11kv_switch P (unat (hashA ! (i mod 64)) mod HASHX11KV_NUMBER_ALGOS) hashA"
    have "length ?next = 64"
      using "1.prems" by (rule length_x11kv_switch)
    with "1.IH"[OF True "1.prems"(1)] True "1.prems"(2) show ?thesis
      by (subst x11kv_loop.simps)
        (simp add: upt_conv_Cons x11kv_switch_sph512 HASHX11KV_NUMBER_ALGOS_def)
  next
    case False
    then show ?thesis
      by (subst x11kv_loop.simps) simp
  qed
qed

lemma x11kv_iterations_spec: "x11kv_iterations d = leafHash_spec_n d"
  by (simp add: x11kv_iterations_def leafHash_spec_n_def
      HASHX11KV_MIN_NUMBER_ITERATIONS_def HASHX11KV_MAX_NUMBER_ITERATIONS_def)

subsection \<open>Counting\<close>

lemma x11kv_take32: "x11kv P input = Inr hash \<Longrightarrow> take 32 hash = hash"
  by (auto simp add: x11kv_def Let_def split: sum.splits)

lemma unat_pred: "w \<noteq> 0 \<Longrightarrow> Suc (unat (w - 1)) = unat (w :: uint32)"
  by (simp add: unat_minus_one unat_gt_0)

lemma x11kvshash_count_eq:
  "80 \<le> length input \<Longrightarrow>
     x11kvshash_count P input level = (x11kvshash P input level, 2 ^ Suc (unat (level - 1)) - 1)"
proof (induction P input level rule: x11kvshash_count.induct)
  case (1 P input level)
  from x11kv_Inr[OF "1.prems"] obtain hash where hash: "x11kv P input = Inr hash"
    by blast
  show ?case
  proof (cases "level = HASHX11KVS_MIN_LEVEL")
    case True
    with hash x11kv_take32[OF hash] show ?thesis
      by (subst x11kvshash_count.simps) (simp add: HASHX11KVS_MIN_LEVEL_def x11kvshash_leaf)
  next
    case False
    then have level: "level \<noteq> 1" and pred: "level - 1 \<noteq> 0"
      by (simp_all add: HASHX11KVS_MIN_LEVEL_def)
    define c :: nat where "c = 2 ^ Suc (unat (level - 1 - 1)) - 1"
    have len: "80 \<le> length (nextheader input hash off)" for off
      using "1.prems" by (simp add: length_nextheader)
    from x11kvshash_Inr[OF len] obtain hash1
      where hash1: "x11kvshash P (nextheader input hash 24) (level - 1) = Inr hash1"
      by blast
    from x11kvshash_Inr[OF len] obtain hash2
      where hash2: "x11kvshash P (nextheader input hash 28) (level - 1) = Inr hash2"
      by blast
    have c1: "x11kvshash_count P (nextheader input hash 24) (level - 1) = (Inr hash1, c)"
      using "1.IH"(1)[OF hash False len] hash1 by (simp add: c_def)
    have c2: "x11kvshash_count P (nextheader input hash 28) (level - 1) = (Inr hash2, c)"
      using "1.IH"(2)[OF hash False c1[symmetric] refl len] hash2 by (simp add: c_def)
    have "c = 2 ^ unat (level - 1) - 1"
      unfolding c_def using unat_pred[OF pred] by simp
    then have "1 + c + c = 2 ^ Suc (unat (level - 1)) - 1"
      by simp
    then show ?thesis
      using hash False c1 c2 x11kvshash_node[OF hash level] hash1 hash2
      by (subst x11kvshash_count.simps) (simp add: Let_def)
  qed
qed

subsection \<open>The demo instance\<close>

lemma wf_demo_primitives: "wf_primitives demo_primitives"
  by (simp add: wf_primitives_def demo_primitives_def demo_fold_def)

lemma length_demo_header: "length demo_header = 80"
  by (simp add: demo_header_def)

section \<open>The entry point and the terminal case\<close>

text \<open>
  C1. For every 80-byte header \<open>h\<close> the entry point \<^verbatim>\<open>x11kvs_hash\<close> returns exactly the
  result of the recursive tree hash at level 7 (\<^verbatim>\<open>HASHX11KVS_MAX_LEVEL\<close>), whatever \<open>len\<close> is,
  and that result is a 32-byte digest. The functions are pure: the result is all there is.
\<close>

theorem x11kvs_hash_level7:
  assumes "wf_primitives P" and "length h = 80"
  shows "x11kvs_hash P h len = x11kvshash P h 7 \<and> is_digest (x11kvs_hash P h len)"
proof -
  have "is_digest (x11kvshash P h 7)"
    using assms by (intro is_digest_x11kvshash) simp_all
  then show ?thesis
    by (simp add: x11kvs_hash_def HASHX11KVS_MAX_LEVEL_def)
qed

theorem x11kvs_hash_level7_witness:
  "wf_primitives demo_primitives \<and> length demo_header = 80 \<and>
   x11kvs_hash demo_primitives demo_header 80 = x11kvshash demo_primitives demo_header 7 \<and>
   is_digest (x11kvs_hash demo_primitives demo_header 80)"
  using x11kvs_hash_level7[OF wf_demo_primitives length_demo_header, of 80]
    wf_demo_primitives length_demo_header
  by blast

text \<open>
  C2. For every 80-byte header \<open>h\<close> the tree hash at level 1 (\<^verbatim>\<open>HASHX11KVS_MIN_LEVEL\<close>) is the
  leaf hash: \<^verbatim>\<open>x11kvshash\<close> returns the 32-byte digest of \<^verbatim>\<open>x11kv\<close> unchanged, without
  recursion and without \<^verbatim>\<open>sha256_double_hash\<close>.
\<close>

theorem x11kvshash_level1:
  assumes "wf_primitives P" and "length h = 80"
  shows "x11kvshash P h 1 = x11kv P h \<and> x11kvshash P h HASHX11KVS_MIN_LEVEL = x11kv P h
    \<and> is_digest (x11kv P h)"
proof -
  have "is_digest (x11kvshash P h 1)"
    using assms by (intro is_digest_x11kvshash) simp_all
  then show ?thesis
    by (simp add: x11kvshash_leaf HASHX11KVS_MIN_LEVEL_def)
qed

theorem x11kvshash_level1_witness:
  "wf_primitives demo_primitives \<and> length demo_header = 80 \<and>
   x11kvshash demo_primitives demo_header 1 = x11kv demo_primitives demo_header \<and>
   is_digest (x11kv demo_primitives demo_header)"
  using x11kvshash_level1[OF wf_demo_primitives length_demo_header]
    wf_demo_primitives length_demo_header
  by blast

section \<open>The leaf hash\<close>

text \<open>
  C3. For every 80-byte header, \<^verbatim>\<open>x11kv\<close> computes the specification's leaf hash over the
  functions its \<^verbatim>\<open>switch\<close> selects: \<open>digest0\<close> is the first function (index 0, Blake) of the
  header, the iteration count is \<open>n = 2 + (byte 63 of digest0) mod 5\<close>, which lies in
  \<open>[2, 6]\<close>, for \<open>i\<close> from 1 to \<open>n - 1\<close> the working digest is replaced by function \<open>k\<close> of
  it, \<open>k\<close> being its byte at offset \<open>i mod 64\<close> modulo 11, and the output is the first 32
  bytes of the final working digest.
\<close>

theorem x11kv_refines_leafHash_spec:
  assumes "wf_primitives P" and "length header = 80"
  shows "x11kv P header = Inr (leafHash_spec (sph512 P) header)
    \<and> sph512 P 0 = sph_blake512 P
    \<and> x11kv_iterations (sph_blake512 P header) = leafHash_spec_n (sph512 P 0 header)
    \<and> 2 \<le> x11kv_iterations (sph_blake512 P header)
    \<and> x11kv_iterations (sph_blake512 P header) \<le> 6"
proof -
  have blake: "sph512 P 0 = sph_blake512 P"
    by (simp add: sph512_def)
  have "length (sph_blake512 P header) = 64"
    using assms(1) by (simp add: wf_primitives_def)
  with assms(1) have "x11kv_loop P 1 n (sph_blake512 P header)
      = fold (\<lambda>i digest. sph512 P (unat (digest ! (i mod 64)) mod 11) digest) [1..<n]
          (sph_blake512 P header)" for n
    by (rule x11kv_loop_fold)
  then have "x11kv P header = Inr (leafHash_spec (sph512 P) header)"
    using assms(2) by (simp add: x11kv_Inr leafHash_spec_def blake x11kv_iterations_spec Let_def)
  moreover have "2 \<le> x11kv_iterations d \<and> x11kv_iterations d \<le> 6" for d
    by (simp add: x11kv_iterations_def HASHX11KV_MIN_NUMBER_ITERATIONS_def
        HASHX11KV_MAX_NUMBER_ITERATIONS_def)
  ultimately show ?thesis
    by (simp add: blake x11kv_iterations_spec)
qed

theorem x11kv_refines_leafHash_spec_witness:
  "wf_primitives demo_primitives \<and> length demo_header = 80 \<and>
   x11kv demo_primitives demo_header = Inr (leafHash_spec (sph512 demo_primitives) demo_header) \<and>
   x11kv_iterations (sph_blake512 demo_primitives demo_header) = 6"
proof -
  have "x11kv_iterations (sph_blake512 demo_primitives demo_header) = 6"
    by code_simp
  then show ?thesis
    using x11kv_refines_leafHash_spec[OF wf_demo_primitives length_demo_header]
      wf_demo_primitives length_demo_header
    by blast
qed

section \<open>Internal nodes of the tree\<close>

text \<open>
  C4. At every internal node (level above 1) of an 80-byte header whose leaf digest is
  \<open>hash\<close>, the two child nonces are \<open>nonce + driftA mod 0xFFFF\<close> and
  \<open>nonce + driftB mod 0xFFFF\<close> in 32-bit wrap-around addition, where \<open>nonce\<close> is the
  little-endian word at offset 76 of the header and \<open>driftA\<close>, \<open>driftB\<close> are the
  little-endian words at offsets 24 and 28 of \<open>hash\<close>. Each child header is 80 bytes: the
  parent's first 76 bytes, then the child nonce in little-endian order. The two recursive
  calls are made on exactly these headers, at \<open>level - 1\<close>.
\<close>

theorem child_headers:
  assumes "length input = 80" and "x11kv P input = Inr hash" and "1 < level"
  shows "nextheader input hash 24
      = take 76 input @ le32enc (le32dec (drop 76 input) + le32dec (drop 24 hash) mod 0xFFFF)
    \<and> nextheader input hash 28
      = take 76 input @ le32enc (le32dec (drop 76 input) + le32dec (drop 28 hash) mod 0xFFFF)
    \<and> le32dec (drop 76 (nextheader input hash 24))
      = le32dec (drop 76 input) + le32dec (drop 24 hash) mod 0xFFFF
    \<and> le32dec (drop 76 (nextheader input hash 28))
      = le32dec (drop 76 input) + le32dec (drop 28 hash) mod 0xFFFF
    \<and> unat (le32dec (drop 76 (nextheader input hash 24)))
      = (unat (le32dec (drop 76 input)) + unat (le32dec (drop 24 hash)) mod 65535) mod 2 ^ 32
    \<and> unat (le32dec (drop 76 (nextheader input hash 28)))
      = (unat (le32dec (drop 76 input)) + unat (le32dec (drop 28 hash)) mod 65535) mod 2 ^ 32
    \<and> take 76 (nextheader input hash 24) = take 76 input
    \<and> take 76 (nextheader input hash 28) = take 76 input
    \<and> length (nextheader input hash 24) = 80
    \<and> length (nextheader input hash 28) = 80
    \<and> x11kvshash P input level =
        (case x11kvshash P (nextheader input hash 24) (level - 1) of
           Inl e \<Rightarrow> Inl e
         | Inr hash1 \<Rightarrow>
             (case x11kvshash P (nextheader input hash 28) (level - 1) of
                Inl e \<Rightarrow> Inl e
              | Inr hash2 \<Rightarrow>
                  Inr (sha256_double_hash P (take 32 hash @ take 32 hash1 @ take 32 hash2) 96)))"
proof -
  have len: "76 \<le> length input"
    using assms(1) by simp
  have level: "level \<noteq> 1"
    using assms(3) by auto
  have enc: "nextheader input hash off
      = take 76 input @ le32enc (le32dec (drop 76 input) + le32dec (drop off hash) mod 0xFFFF)"
    for off
    by (simp add: nextheader_def nextnonce_def HASHX11KVS_MAX_DRIFT_def)
  have dec: "le32dec (drop 76 (nextheader input hash off))
      = le32dec (drop 76 input) + le32dec (drop off hash) mod 0xFFFF" for off
    using le32dec_nextheader[OF len, of hash off]
    by (simp add: nextnonce_def HASHX11KVS_MAX_DRIFT_def)
  have un: "unat (le32dec (drop 76 (nextheader input hash off)))
      = (unat (le32dec (drop 76 input)) + unat (le32dec (drop off hash)) mod 65535) mod 2 ^ 32"
    for off
    unfolding dec by (simp add: unat_word_ariths)
  show ?thesis
    using enc[of 24] enc[of 28] dec[of 24] dec[of 28] un[of 24] un[of 28]
      take_nextheader[OF len, of hash] length_nextheader[OF len, of hash]
      x11kvshash_node[OF assms(2) level]
    by blast
qed

theorem child_headers_witness:
  "length (replicate 76 0 @ [255, 255, 255, 255 :: byte]) = 80 \<and>
   x11kv demo_primitives (replicate 76 0 @ [255, 255, 255, 255])
     = Inr [7, 7, 7, 7, 7, 7, 7, 7, 7, 7, 7, 7, 6, 6, 6, 6,
            7, 7, 7, 7, 7, 7, 7, 7, 7, 7, 7, 7, 7, 7, 7, 7] \<and>
   (1 :: uint32) < 2 \<and>
   nextheader (replicate 76 0 @ [255, 255, 255, 255])
       [7, 7, 7, 7, 7, 7, 7, 7, 7, 7, 7, 7, 6, 6, 6, 6,
        7, 7, 7, 7, 7, 7, 7, 7, 7, 7, 7, 7, 7, 7, 7, 7] 24
     = replicate 76 0 @ [13, 14, 0, 0] \<and>
   le32dec (drop 76 (nextheader (replicate 76 0 @ [255, 255, 255, 255])
       [7, 7, 7, 7, 7, 7, 7, 7, 7, 7, 7, 7, 6, 6, 6, 6,
        7, 7, 7, 7, 7, 7, 7, 7, 7, 7, 7, 7, 7, 7, 7, 7] 24))
     = le32dec (drop 76 (replicate 76 0 @ [255, 255, 255, 255]))
         + le32dec (drop 24 [7, 7, 7, 7, 7, 7, 7, 7, 7, 7, 7, 7, 6, 6, 6, 6,
        7, 7, 7, 7, 7, 7, 7, 7, 7, 7, 7, 7, 7, 7, 7, 7 :: byte]) mod 0xFFFF"
proof -
  let ?h = "replicate 76 0 @ [255, 255, 255, 255 :: byte]"
  let ?d = "[7, 7, 7, 7, 7, 7, 7, 7, 7, 7, 7, 7, 6, 6, 6, 6,
            7, 7, 7, 7, 7, 7, 7, 7, 7, 7, 7, 7, 7, 7, 7, 7 :: byte]"
  have len: "length ?h = 80"
    by simp
  have leaf: "x11kv demo_primitives ?h = Inr ?d"
    by code_simp
  have lvl: "(1 :: uint32) < 2"
    by simp
  have child: "nextheader ?h ?d 24 = replicate 76 0 @ [13, 14, 0, 0]"
    by code_simp
  show ?thesis
    using child_headers[OF len leaf lvl] len leaf lvl child by blast
qed

text \<open>
  C5. For every 80-byte header, both derived child nonces stay within the drift bound:
  the derived nonce minus the original nonce, modulo \<open>2 ^ 32\<close>, is less than \<open>0xFFFF\<close>
  (\<^verbatim>\<open>HASHX11KVS_MAX_DRIFT\<close>). The bound holds for whatever digest the drift is read from,
  so at every level above 1.
\<close>

theorem nonce_drift_bound:
  assumes "length input = 80"
  shows "le32dec (drop 76 (nextheader input hash 24)) - le32dec (drop 76 input) < 0xFFFF
    \<and> le32dec (drop 76 (nextheader input hash 28)) - le32dec (drop 76 input) < 0xFFFF
    \<and> unat (le32dec (drop 76 (nextheader input hash 24)) - le32dec (drop 76 input)) < 65535
    \<and> unat (le32dec (drop 76 (nextheader input hash 28)) - le32dec (drop 76 input)) < 65535"
proof -
  have len: "76 \<le> length input"
    using assms by simp
  have lt: "le32dec (drop 76 (nextheader input hash off)) - le32dec (drop 76 input) < 0xFFFF"
    for off
    by (simp only: le32dec_nextheader[OF len] nextnonce_drift drift_less)
  then have "unat (le32dec (drop 76 (nextheader input hash off)) - le32dec (drop 76 input))
      < unat (0xFFFF :: uint32)" for off
    by (simp only: word_less_nat_alt)
  then have "unat (le32dec (drop 76 (nextheader input hash off)) - le32dec (drop 76 input))
      < 65535" for off
    by simp
  with lt show ?thesis
    by blast
qed

theorem nonce_drift_bound_witness:
  "length (replicate 76 0 @ [255, 255, 255, 255 :: byte]) = 80 \<and>
   le32dec (drop 76 (nextheader (replicate 76 0 @ [255, 255, 255, 255])
       (replicate 24 0 @ [254, 255, 0, 0, 253, 255, 1, 0]) 24)) = 0xFFFD \<and>
   le32dec (drop 76 (nextheader (replicate 76 0 @ [255, 255, 255, 255])
       (replicate 24 0 @ [254, 255, 0, 0, 253, 255, 1, 0]) 24))
     - le32dec (drop 76 (replicate 76 0 @ [255, 255, 255, 255])) < 0xFFFF \<and>
   le32dec (drop 76 (nextheader (replicate 76 0 @ [255, 255, 255, 255])
       (replicate 24 0 @ [254, 255, 0, 0, 253, 255, 1, 0]) 28))
     - le32dec (drop 76 (replicate 76 0 @ [255, 255, 255, 255])) < 0xFFFF"
proof -
  let ?h = "replicate 76 0 @ [255, 255, 255, 255 :: byte]"
  let ?d = "replicate 24 0 @ [254, 255, 0, 0, 253, 255, 1, 0 :: byte]"
  have len: "length ?h = 80"
    by simp
  have wrapped: "le32dec (drop 76 (nextheader ?h ?d 24)) = 0xFFFD"
    by code_simp
  show ?thesis
    using nonce_drift_bound[OF len, of ?d] len wrapped by blast
qed

text \<open>
  C6. At every internal node (level above 1) of an 80-byte header, the output is
  \<open>SHA256 (SHA256 (selfDigest || digestLeft || digestRight))\<close>: the leaf digest of the
  node, then the results of the left and of the right child, 96 bytes in this order,
  hashed twice by \<^verbatim>\<open>sha256_double_hash\<close>.
\<close>

theorem node_output:
  assumes "wf_primitives P" and "length input = 80" and "1 < level"
  shows "\<exists>selfDigest digestLeft digestRight.
      x11kv P input = Inr selfDigest
    \<and> x11kvshash P (nextheader input selfDigest 24) (level - 1) = Inr digestLeft
    \<and> x11kvshash P (nextheader input selfDigest 28) (level - 1) = Inr digestRight
    \<and> length selfDigest = 32 \<and> length digestLeft = 32 \<and> length digestRight = 32
    \<and> length (selfDigest @ digestLeft @ digestRight) = 96
    \<and> x11kvshash P input level
        = Inr (sha256_double_hash P (selfDigest @ digestLeft @ digestRight) 96)
    \<and> x11kvshash P input level
        = Inr (SHA256 P (SHA256 P (selfDigest @ digestLeft @ digestRight)))"
proof -
  have len: "80 \<le> length input"
    using assms(2) by simp
  have level: "level \<noteq> 1"
    using assms(3) by auto
  from x11kv_Inr[OF len] obtain hash where hash: "x11kv P input = Inr hash"
    by blast
  have len': "80 \<le> length (nextheader input hash off)" for off
    using assms(2) by (simp add: length_nextheader)
  from x11kvshash_Inr[OF len'] obtain hash1
    where hash1: "x11kvshash P (nextheader input hash 24) (level - 1) = Inr hash1"
    by blast
  from x11kvshash_Inr[OF len'] obtain hash2
    where hash2: "x11kvshash P (nextheader input hash 28) (level - 1) = Inr hash2"
    by blast
  have l: "length hash = 32" "length hash1 = 32" "length hash2 = 32"
    using assms(1) hash hash1 hash2 by (simp_all add: length_x11kv length_x11kvshash)
  then have l96: "length (hash @ hash1 @ hash2) = 96"
    by simp
  have out: "x11kvshash P input level = Inr (sha256_double_hash P (hash @ hash1 @ hash2) 96)"
    using x11kvshash_node[OF hash level] hash1 hash2 l by simp
  then have "x11kvshash P input level = Inr (SHA256 P (SHA256 P (hash @ hash1 @ hash2)))"
    using sha256_double_hash_96[OF assms(1) l96] by simp
  with hash hash1 hash2 l l96 out show ?thesis
    by blast
qed

theorem node_output_witness:
  "wf_primitives demo_primitives \<and> length demo_header = 80 \<and> (1 :: uint32) < 2 \<and>
   x11kvshash demo_primitives demo_header 2
     = Inr (SHA256 demo_primitives (SHA256 demo_primitives
         ([91, 93, 95, 97, 99, 101, 103, 105, 107, 109, 111, 113, 115, 117, 119, 121,
           43, 44, 45, 46, 47, 48, 49, 50, 51, 52, 53, 54, 55, 56, 57, 58]
          @ [91, 93, 95, 97, 99, 101, 103, 105, 107, 109, 111, 113, 219, 223, 119, 121,
             43, 44, 45, 46, 47, 48, 49, 50, 51, 52, 53, 54, 55, 56, 57, 58]
          @ [91, 93, 95, 97, 99, 101, 103, 105, 107, 109, 111, 113, 227, 231, 119, 121,
             43, 44, 45, 46, 47, 48, 49, 50, 51, 52, 53, 54, 55, 56, 57, 58])))"
proof -
  let ?s = "[91, 93, 95, 97, 99, 101, 103, 105, 107, 109, 111, 113, 115, 117, 119, 121,
           43, 44, 45, 46, 47, 48, 49, 50, 51, 52, 53, 54, 55, 56, 57, 58 :: byte]"
  let ?l = "[91, 93, 95, 97, 99, 101, 103, 105, 107, 109, 111, 113, 219, 223, 119, 121,
             43, 44, 45, 46, 47, 48, 49, 50, 51, 52, 53, 54, 55, 56, 57, 58 :: byte]"
  let ?r = "[91, 93, 95, 97, 99, 101, 103, 105, 107, 109, 111, 113, 227, 231, 119, 121,
             43, 44, 45, 46, 47, 48, 49, 50, 51, 52, 53, 54, 55, 56, 57, 58 :: byte]"
  have lvl: "(1 :: uint32) < 2"
    by simp
  have self: "x11kv demo_primitives demo_header = Inr ?s"
    by code_simp
  have left: "x11kvshash demo_primitives (nextheader demo_header ?s 24) (2 - 1) = Inr ?l"
    by code_simp
  have right: "x11kvshash demo_primitives (nextheader demo_header ?s 28) (2 - 1) = Inr ?r"
    by code_simp
  from node_output[OF wf_demo_primitives length_demo_header lvl] obtain s l r
    where "x11kv demo_primitives demo_header = Inr s"
      and "x11kvshash demo_primitives (nextheader demo_header s 24) (2 - 1) = Inr l"
      and "x11kvshash demo_primitives (nextheader demo_header s 28) (2 - 1) = Inr r"
      and "x11kvshash demo_primitives demo_header 2
        = Inr (SHA256 demo_primitives (SHA256 demo_primitives (s @ l @ r)))"
    by blast
  with self left right
  have "x11kvshash demo_primitives demo_header 2
        = Inr (SHA256 demo_primitives (SHA256 demo_primitives (?s @ ?l @ ?r)))"
    by simp
  with wf_demo_primitives length_demo_header lvl show ?thesis
    by blast
qed

section \<open>The number of leaf hashes\<close>

text \<open>
  C7. For every 80-byte header \<open>h\<close> and every level in \<open>[1, 7]\<close>, evaluating
  \<^verbatim>\<open>x11kvshash\<close> at that level calls \<^verbatim>\<open>x11kv\<close> exactly \<open>2 ^ level - 1\<close> times; the entry
  point, at level 7, makes exactly 127 calls. The counting function returns the result
  of the function it instruments.
\<close>

theorem x11kv_invocation_count:
  assumes "length h = 80" and "1 \<le> level" and "level \<le> 7"
  shows "snd (x11kvshash_count P h level) = 2 ^ unat level - 1
    \<and> fst (x11kvshash_count P h level) = x11kvshash P h level
    \<and> snd (x11kvs_hash_count P h len) = 127
    \<and> fst (x11kvs_hash_count P h len) = x11kvs_hash P h len"
proof -
  have "level \<noteq> 0"
    using assms(2) by auto
  then have "Suc (unat (level - 1)) = unat level"
    by (rule unat_pred)
  moreover have "80 \<le> length h"
    using assms(1) by simp
  ultimately show ?thesis
    by (simp add: x11kvshash_count_eq x11kvs_hash_count_def x11kvs_hash_def
        HASHX11KVS_MAX_LEVEL_def)
qed

theorem x11kv_invocation_count_witness:
  "length demo_header = 80 \<and> (1 :: uint32) \<le> 3 \<and> (3 :: uint32) \<le> 7 \<and>
   snd (x11kvshash_count demo_primitives demo_header 3) = 7 \<and>
   snd (x11kvs_hash_count demo_primitives demo_header 80) = 127"
  using x11kv_invocation_count[OF length_demo_header, of 3 demo_primitives 80] length_demo_header
  by simp

section \<open>Arguments that are never checked\<close>

text \<open>
  C8 as stated: when the input is not exactly 80 bytes, the entry point fails with an
  invalid-input error, and no such input yields a digest. It does not hold:
  \<^verbatim>\<open>x11kvs_hash\<close> never looks at \<^verbatim>\<open>len\<close> and has no error result; a 100-byte buffer passed
  with \<^verbatim>\<open>len = 100\<close> yields a digest.
\<close>

theorem x11kvs_hash_length_unchecked_counterexample:
  "length (replicate 100 (0 :: byte)) \<noteq> 80 \<and> (100 :: uint32) \<noteq> 80 \<and>
   is_digest (x11kvs_hash demo_primitives (replicate 100 0) 100)"
proof -
  have "is_digest (x11kvshash demo_primitives (replicate 100 0) 7)"
    by (rule is_digest_x11kvshash[OF wf_demo_primitives]) simp
  then show ?thesis
    by (simp add: x11kvs_hash_def HASHX11KVS_MAX_LEVEL_def)
qed

text \<open>
  C8, amended. The entry point validates nothing and reports no error: \<^verbatim>\<open>len\<close> is ignored,
  and for every buffer of at least 80 bytes and every \<^verbatim>\<open>len\<close> the result is a 32-byte
  digest, the one of the buffer's first 80 bytes.
\<close>

theorem x11kvs_hash_length_unchecked:
  assumes "wf_primitives P" and "80 \<le> length input"
  shows "is_digest (x11kvs_hash P input len)
    \<and> x11kvs_hash P input len = x11kvs_hash P (take 80 input) 80"
  using is_digest_x11kvshash[OF assms] by (simp add: x11kvs_hash_def x11kvshash_take80)

theorem x11kvs_hash_length_unchecked_witness:
  "wf_primitives demo_primitives \<and> 80 \<le> length (demo_header @ [1, 2, 3]) \<and>
   is_digest (x11kvs_hash demo_primitives (demo_header @ [1, 2, 3]) 83) \<and>
   x11kvs_hash demo_primitives (demo_header @ [1, 2, 3]) 83
     = x11kvs_hash demo_primitives (take 80 (demo_header @ [1, 2, 3])) 80 \<and>
   take 80 (demo_header @ [1, 2, 3]) = demo_header"
proof -
  have len: "80 \<le> length (demo_header @ [1, 2, 3])"
    by (simp add: length_demo_header)
  have "take 80 (demo_header @ [1, 2, 3]) = demo_header"
    by (simp add: length_demo_header)
  then show ?thesis
    using x11kvs_hash_length_unchecked[OF wf_demo_primitives len, of 83] wf_demo_primitives len
    by blast
qed

text \<open>
  C9 as stated: called with a level outside \<open>[1, 7]\<close>, \<^verbatim>\<open>x11kvshash\<close> fails with an
  invalid-argument error. It does not hold: the function compares \<^verbatim>\<open>level\<close> with
  \<^verbatim>\<open>HASHX11KVS_MIN_LEVEL\<close> only, and at level 8 it returns a digest.
\<close>

theorem x11kvshash_level_unchecked_counterexample:
  "\<not> (8 :: uint32) \<le> 7 \<and> length demo_header = 80 \<and>
   is_digest (x11kvshash demo_primitives demo_header 8)"
proof -
  have "is_digest (x11kvshash demo_primitives demo_header 8)"
    by (rule is_digest_x11kvshash[OF wf_demo_primitives]) (simp add: length_demo_header)
  then show ?thesis
    by (simp add: length_demo_header)
qed

text \<open>
  C9, amended. \<^verbatim>\<open>x11kvshash\<close> has no guard on \<^verbatim>\<open>level\<close> and no error result. A level above
  7 is not rejected: at level 8 the function goes on as at any other internal node and
  returns a 32-byte digest, after \<open>2 ^ 8 - 1\<close> calls of \<^verbatim>\<open>x11kv\<close>. For every 80-byte header
  and every level in \<open>[1, 7]\<close> the recursion ends with a 32-byte digest, after
  \<open>2 ^ level - 1\<close> calls of \<^verbatim>\<open>x11kv\<close>.
\<close>

theorem x11kvshash_level_unchecked:
  assumes "wf_primitives P" and "length h = 80" and "1 \<le> level" and "level \<le> 8"
  shows "is_digest (x11kvshash P h level)
    \<and> fst (x11kvshash_count P h level) = x11kvshash P h level
    \<and> snd (x11kvshash_count P h level) = 2 ^ unat level - 1"
proof -
  have len: "80 \<le> length h"
    using assms(2) by simp
  have "level \<noteq> 0"
    using assms(3) by auto
  then have "Suc (unat (level - 1)) = unat level"
    by (rule unat_pred)
  moreover have "is_digest (x11kvshash P h level)"
    using assms(1) len by (rule is_digest_x11kvshash)
  ultimately show ?thesis
    by (simp add: x11kvshash_count_eq[OF len])
qed

theorem x11kvshash_level_unchecked_witness:
  "wf_primitives demo_primitives \<and> length demo_header = 80 \<and>
   (1 :: uint32) \<le> 8 \<and> (8 :: uint32) \<le> 8 \<and>
   is_digest (x11kvshash demo_primitives demo_header 8) \<and>
   snd (x11kvshash_count demo_primitives demo_header 8) = 255"
proof -
  have lo: "(1 :: uint32) \<le> 8" and hi: "(8 :: uint32) \<le> 8"
    by simp_all
  show ?thesis
    using x11kvshash_level_unchecked[OF wf_demo_primitives length_demo_header lo hi]
      wf_demo_primitives length_demo_header lo hi
    by simp
qed

text \<open>
  C10. The length argument of the entry point has no influence on the result: for every
  buffer and any two values of \<^verbatim>\<open>len\<close> the results are equal, and two buffers with the same
  first 80 bytes give the same result; for a buffer of at least 80 bytes that result is a
  32-byte digest.
\<close>

theorem x11kvs_hash_len_noninterference:
  "x11kvs_hash P input len1 = x11kvs_hash P input len2
   \<and> (take 80 input = take 80 input' \<longrightarrow> x11kvs_hash P input len1 = x11kvs_hash P input' len2)
   \<and> (wf_primitives P \<and> 80 \<le> length input \<longrightarrow> is_digest (x11kvs_hash P input len1))"
proof -
  have "x11kvs_hash P input len1 = x11kvs_hash P input' len2"
    if "take 80 input = take 80 input'"
  proof -
    have "x11kvshash P input 7 = x11kvshash P (take 80 input) 7"
      by (simp only: x11kvshash_take80)
    also have "\<dots> = x11kvshash P (take 80 input') 7"
      by (simp only: that)
    also have "\<dots> = x11kvshash P input' 7"
      by (simp only: x11kvshash_take80)
    finally show ?thesis
      by (simp add: x11kvs_hash_def HASHX11KVS_MAX_LEVEL_def)
  qed
  moreover have "is_digest (x11kvs_hash P input len1)"
    if "wf_primitives P" and "80 \<le> length input"
    using is_digest_x11kvshash[OF that] by (simp add: x11kvs_hash_def)
  ultimately show ?thesis
    by (simp add: x11kvs_hash_def)
qed

theorem x11kvs_hash_len_noninterference_witness:
  "take 80 (demo_header @ [1, 2, 3]) = take 80 (demo_header @ [9]) \<and>
   wf_primitives demo_primitives \<and> 80 \<le> length (demo_header @ [1, 2, 3]) \<and>
   x11kvs_hash demo_primitives (demo_header @ [1, 2, 3]) 0
     = x11kvs_hash demo_primitives (demo_header @ [9]) 81 \<and>
   is_digest (x11kvs_hash demo_primitives (demo_header @ [1, 2, 3]) 0)"
proof -
  have eq: "take 80 (demo_header @ [1, 2, 3]) = take 80 (demo_header @ [9])"
    by (simp add: length_demo_header)
  have len: "80 \<le> length (demo_header @ [1, 2, 3])"
    by (simp add: length_demo_header)
  show ?thesis
    using x11kvs_hash_len_noninterference[of demo_primitives "demo_header @ [1, 2, 3]" 0 81
        "demo_header @ [9]"] eq len wf_demo_primitives
    by blast
qed

end
